theory Spec2Isabelle
  imports Main "HOL-Library.Sublist"
begin

section \<open>Definitions\<close>

subsection \<open>JavaScript strings and arrays\<close>

text \<open>
  A JavaScript string is a sequence of UTF-16 code units; \<open>length\<close>, \<open>slice\<close>,
  \<open>substring\<close> and the regular expressions of the source all work on code units,
  so a string is modelled as the list of its code units.
\<close>

type_synonym jsstring = "nat list"

definition str :: "string \<Rightarrow> jsstring" where
  "str s = map of_char s"

text \<open>
  \<open>Array.prototype.slice(start, end)\<close> and \<open>String.prototype.slice(start, end)\<close>:
  a negative index counts from the end, and both indices are clamped to the length.
\<close>

definition js_slice :: "'a list \<Rightarrow> int \<Rightarrow> int \<Rightarrow> 'a list" where
  "js_slice xs s e =
     (let n = int (length xs);
          from = (if s < 0 then max (n + s) 0 else min s n);
          upto = (if e < 0 then max (n + e) 0 else min e n)
      in take (nat (upto - from)) (drop (nat from) xs))"

subsection \<open>Text splitter (\<open>RecursiveCharacterTextSplitter.splitText\<close>)\<close>

text \<open>
  The loop of \<open>splitText\<close>, with the loop variables \<open>start\<close>, \<open>iterationCount\<close> and
  \<open>chunks\<close> as arguments. The \<open>break\<close> statements are the branches that return. The
  loop counter is returned with the chunks, since the source reads it after the loop.
\<close>

definition maxIterations :: nat where
  "maxIterations = 1000"

function splitLoop ::
  "int \<Rightarrow> int \<Rightarrow> 'a list \<Rightarrow> int \<Rightarrow> nat \<Rightarrow> 'a list list \<Rightarrow> 'a list list \<times> nat" where
  "splitLoop chunkSize chunkOverlap text start iterationCount chunks =
     (if start < int (length text) \<and> iterationCount < maxIterations then
        (let iterationCount' = iterationCount + 1;
             endp = min (start + chunkSize) (int (length text));
             chunk = js_slice text start endp;
             chunks' = (if length chunk > 0 then chunks @ [chunk] else chunks);
             start' = endp - chunkOverlap
         in if start' \<le> endp - chunkSize \<and> endp < int (length text) then
              (let start'' = endp - chunkOverlap
               in if start'' + chunkSize > int (length text) \<and> endp \<ge> int (length text)
                  then (chunks', iterationCount')
                  else splitLoop chunkSize chunkOverlap text start'' iterationCount' chunks')
            else if endp \<ge> int (length text) then (chunks', iterationCount')
            else if start' + chunkSize > int (length text) \<and> endp \<ge> int (length text)
                 then (chunks', iterationCount')
                 else splitLoop chunkSize chunkOverlap text start' iterationCount' chunks')
      else (chunks, iterationCount))"
  by pat_completeness auto
termination
  by (relation "measure (\<lambda>(cs, ov, t, s, it, ch). maxIterations - it)") auto

declare splitLoop.simps [simp del]

definition splitText :: "int \<Rightarrow> int \<Rightarrow> 'a list \<Rightarrow> 'a list list" where
  "splitText chunkSize chunkOverlap text = fst (splitLoop chunkSize chunkOverlap text 0 0 [])"

definition splitText_iterations :: "int \<Rightarrow> int \<Rightarrow> 'a list \<Rightarrow> nat" where
  "splitText_iterations chunkSize chunkOverlap text = snd (splitLoop chunkSize chunkOverlap text 0 0 [])"

text \<open>
  Concatenating the chunks minus their overlaps: the first chunk whole, then every later
  chunk without its first \<open>ov\<close> characters.
\<close>

fun reconstruct :: "nat \<Rightarrow> 'a list list \<Rightarrow> 'a list" where
  "reconstruct ov [] = []"
| "reconstruct ov (c # cs) = c @ concat (map (drop ov) cs)"

text \<open>
  The windows the loop is expected to produce, written directly on natural numbers: the
  window at offset \<open>s\<close>, then the windows from \<open>s + cs - ov\<close> on while the text is not
  exhausted, at most \<open>fuel\<close> of them.
\<close>

fun windows :: "nat \<Rightarrow> nat \<Rightarrow> 'a list \<Rightarrow> nat \<Rightarrow> nat \<Rightarrow> 'a list list" where
  "windows cs ov text s 0 = []"
| "windows cs ov text s (Suc fuel) =
     (if s < length text
      then take cs (drop s text) #
           (if s + cs < length text then windows cs ov text (s + cs - ov) fuel else [])
      else [])"

text \<open>The number of windows needed to reach the end of a text of length \<open>len\<close>.\<close>

definition numWindows :: "nat \<Rightarrow> nat \<Rightarrow> nat \<Rightarrow> nat" where
  "numWindows cs ov len =
     (if len = 0 then 0 else if len \<le> cs then 1
      else Suc ((len - cs + (cs - ov) - 1) div (cs - ov)))"

subsection \<open>Whitespace, trimming and cleaning\<close>

text \<open>
  The code units matched by \<open>\s\<close> and stripped by \<open>trim()\<close>: the white space and line
  terminator characters of ECMAScript (tab, line feed, vertical tab, form feed, carriage
  return, space, no-break space, U+1680, U+2000 to U+200A, U+2028, U+2029, U+202F,
  U+205F, U+3000 and U+FEFF).
\<close>

definition is_space :: "nat \<Rightarrow> bool" where
  "is_space c \<longleftrightarrow>
     c \<in> {9, 10, 11, 12, 13, 32, 160, 5760, 8232, 8233, 8239, 8287, 12288, 65279}
     \<or> (8192 \<le> c \<and> c \<le> 8202)"

definition trim :: "jsstring \<Rightarrow> jsstring" where
  "trim s = rev (dropWhile is_space (rev (dropWhile is_space s)))"

text \<open>\<open>replace(/\s+/g, ' ')\<close>: every maximal run of white space becomes one space.\<close>

function collapse_whitespace :: "jsstring \<Rightarrow> jsstring" where
  "collapse_whitespace [] = []"
| "collapse_whitespace (c # cs) =
     (if is_space c then 32 # collapse_whitespace (dropWhile is_space cs)
      else c # collapse_whitespace cs)"
  by pat_completeness auto
termination
  by (relation "measure length") (auto simp: length_dropWhile_le less_Suc_eq_le)

text \<open>\<open>replace(/\n{3,}/g, '\n\n')\<close>: a run of three or more line feeds becomes two.\<close>

function limit_newlines :: "jsstring \<Rightarrow> jsstring" where
  "limit_newlines [] = []"
| "limit_newlines (c # cs) =
     (if c = 10 then
        (let run = takeWhile (\<lambda>d. d = 10) (c # cs);
             rest = dropWhile (\<lambda>d. d = 10) cs
         in (if 3 \<le> length run then [10, 10] else run) @ limit_newlines rest)
      else c # limit_newlines cs)"
  by pat_completeness auto
termination
  by (relation "measure length") (auto simp: length_dropWhile_le less_Suc_eq_le)

subsection \<open>Chunk de-duplication (\<open>DocumentService.chunkText\<close>)\<close>

text \<open>
  \<open>String.prototype.toLowerCase\<close> is a built-in of the language whose Unicode case
  mapping is not part of the repository; it is a parameter \<open>toLowerCase\<close> of the model,
  and every theorem holds for every such function.

  The signature of a trimmed chunk is
  \<open>trimmedChunk.substring(0, 100).toLowerCase().replace(/\s+/g, '')\<close>.
\<close>

definition remove_whitespace :: "jsstring \<Rightarrow> jsstring" where
  "remove_whitespace s = filter (\<lambda>c. \<not> is_space c) s"

definition signature :: "(jsstring \<Rightarrow> jsstring) \<Rightarrow> jsstring \<Rightarrow> jsstring" where
  "signature toLowerCase trimmedChunk = remove_whitespace (toLowerCase (take 100 trimmedChunk))"

text \<open>
  The \<open>for\<close> loop over \<open>rawChunks\<close>, with \<open>uniqueChunks\<close> and the set \<open>seenContent\<close> as
  loop state.
\<close>

fun dedupeLoop ::
  "(jsstring \<Rightarrow> jsstring) \<Rightarrow> jsstring list \<Rightarrow> jsstring list \<Rightarrow> jsstring set \<Rightarrow> jsstring list" where
  "dedupeLoop toLowerCase [] uniqueChunks seenContent = uniqueChunks"
| "dedupeLoop toLowerCase (chunk # rawChunks) uniqueChunks seenContent =
     (let trimmedChunk = trim chunk in
      if length trimmedChunk < 50 then dedupeLoop toLowerCase rawChunks uniqueChunks seenContent
      else (let sig = signature toLowerCase trimmedChunk in
            if sig \<notin> seenContent
            then dedupeLoop toLowerCase rawChunks (uniqueChunks @ [trimmedChunk]) (insert sig seenContent)
            else dedupeLoop toLowerCase rawChunks uniqueChunks seenContent))"

definition dedupe :: "(jsstring \<Rightarrow> jsstring) \<Rightarrow> jsstring list \<Rightarrow> jsstring list" where
  "dedupe toLowerCase rawChunks = dedupeLoop toLowerCase rawChunks [] {}"

text \<open>
  \<open>chunkText\<close> cleans the text, splits it with \<open>chunkSize = 1000\<close> and
  \<open>chunkOverlap = 100\<close>, and de-duplicates. Its \<open>try\<close> block holds string operations
  only, none of which throws, so the \<open>catch\<close> branch (\<open>fallbackChunking\<close>) is never
  taken and is not part of the model.
\<close>

definition cleanText :: "jsstring \<Rightarrow> jsstring" where
  "cleanText text = trim (limit_newlines (collapse_whitespace text))"

definition chunkText :: "(jsstring \<Rightarrow> jsstring) \<Rightarrow> jsstring \<Rightarrow> jsstring list" where
  "chunkText toLowerCase text = dedupe toLowerCase (splitText 1000 100 (cleanText text))"

text \<open>
  Keeping, in the original order, the first element of every signature: the head is kept
  and every later element with the head's signature is removed from the rest.
\<close>

function firstPerSignature :: "('a \<Rightarrow> 'b) \<Rightarrow> 'a list \<Rightarrow> 'a list" where
  "firstPerSignature sig [] = []"
| "firstPerSignature sig (y # ys) = y # firstPerSignature sig (filter (\<lambda>z. sig z \<noteq> sig y) ys)"
  by pat_completeness auto
termination
  by (relation "measure (\<lambda>(sig, ys). length ys)") (auto simp: less_Suc_eq_le)

text \<open>Lower-casing of the ASCII letters, an instance of \<open>toLowerCase\<close> for concrete runs.\<close>

definition asciiLower :: "jsstring \<Rightarrow> jsstring" where
  "asciiLower s = map (\<lambda>c. if 65 \<le> c \<and> c \<le> 90 then c + 32 else c) s"

section \<open>Text splitter: windows, cap and reconstruction\<close>

lemma splitLoop_iterations:
  "it \<le> maxIterations \<Longrightarrow> snd (splitLoop cs ov t s it ch) \<le> maxIterations"
proof (induction cs ov t s it ch rule: splitLoop.induct)
  case (1 cs ov t s it ch)
  show ?case
    using 1 by (subst splitLoop.simps) (auto simp: Let_def)
qed

lemma js_slice_window:
  assumes "s < length xs"
  shows "js_slice xs (int s) (min (int s + int cs) (int (length xs))) = take cs (drop s xs)"
proof -
  have "min (int s + int cs) (int (length xs)) = int (min (s + cs) (length xs))" by simp
  moreover have "nat (int (min (s + cs) (length xs)) - int s) = min (s + cs) (length xs) - s"
    by simp
  moreover have "take (min (s + cs) (length xs) - s) (drop s xs) = take cs (drop s xs)"
    using assms by (simp add: min_def)
  ultimately show ?thesis
    using assms unfolding js_slice_def Let_def by (simp add: min_def)
qed

lemma splitLoop_stop:
  "\<not> (start < int (length t) \<and> it < maxIterations) \<Longrightarrow> splitLoop cs ov t start it ch = (ch, it)"
proof -
  assume a: "\<not> (start < int (length t) \<and> it < maxIterations)"
  show ?thesis by (subst splitLoop.simps) (simp only: a if_False)
qed

lemma splitLoop_step:
  assumes "ov < cs" "s < length t" "it < maxIterations"
  shows "splitLoop (int cs) (int ov) t (int s) it ch =
           (if s + cs < length t
            then splitLoop (int cs) (int ov) t (int (s + cs - ov)) (Suc it) (ch @ [take cs (drop s t)])
            else (ch @ [take cs (drop s t)], Suc it))"
proof -
  define e where "e = min (int s + int cs) (int (length t))"
  have chunk: "js_slice t (int s) e = take cs (drop s t)"
    unfolding e_def using assms(2) by (rule js_slice_window)
  have ne: "length (take cs (drop s t)) > 0" using assms by simp
  have unfold: "splitLoop (int cs) (int ov) t (int s) it ch =
     (if e - int ov \<le> e - int cs \<and> e < int (length t) then
        (if e - int ov + int cs > int (length t) \<and> e \<ge> int (length t)
         then (ch @ [take cs (drop s t)], Suc it)
         else splitLoop (int cs) (int ov) t (e - int ov) (Suc it) (ch @ [take cs (drop s t)]))
      else if e \<ge> int (length t) then (ch @ [take cs (drop s t)], Suc it)
      else if e - int ov + int cs > int (length t) \<and> e \<ge> int (length t)
           then (ch @ [take cs (drop s t)], Suc it)
           else splitLoop (int cs) (int ov) t (e - int ov) (Suc it) (ch @ [take cs (drop s t)]))"
    apply (subst splitLoop.simps)
    unfolding Let_def e_def[symmetric] chunk
    using assms(2,3) ne by simp
  show ?thesis
  proof (cases "s + cs < length t")
    case True
    then have e: "e = int (s + cs)" by (simp add: e_def)
    have "e - int ov = int (s + cs - ov)" using assms(1) e by simp
    then show ?thesis using True assms(1) e unfold by simp
  next
    case False
    then have "e \<ge> int (length t)" by (simp add: e_def)
    then show ?thesis using False unfold by simp
  qed
qed

lemma splitLoop_windows:
  assumes "ov < cs" "it \<le> maxIterations"
  shows "fst (splitLoop (int cs) (int ov) t (int s) it ch) = ch @ windows cs ov t s (maxIterations - it)"
  using assms(2)
proof (induction "maxIterations - it" arbitrary: s it ch)
  case 0
  then show ?case by (simp add: splitLoop_stop)
next
  case (Suc n)
  then have it: "it < maxIterations" and n: "maxIterations - it = Suc n" "n = maxIterations - Suc it" by auto
  show ?case
  proof (cases "s < length t")
    case False
    then show ?thesis by (simp add: splitLoop_stop n)
  next
    case True
    have IH: "fst (splitLoop (int cs) (int ov) t (int s') (Suc it) ch')
            = ch' @ windows cs ov t s' n" for s' ch'
      using Suc.hyps(1)[OF n(2)] it n(2) by simp
    show ?thesis
      using True by (simp add: splitLoop_step[OF assms(1) True it] n(1) IH)
  qed
qed

lemma splitText_windows:
  "ov < cs \<Longrightarrow> splitText (int cs) (int ov) t = windows cs ov t 0 maxIterations"
  using splitLoop_windows[of ov cs 0 t 0 "[]"] by (simp add: splitText_def)

lemma windows_closed:
  "ov < cs \<Longrightarrow> windows cs ov t s fuel =
     map (\<lambda>k. take cs (drop (s + k * (cs - ov)) t)) [0..<length (windows cs ov t s fuel)]"
proof (induction fuel arbitrary: s)
  case 0
  then show ?case by simp
next
  case (Suc fuel)
  show ?case
  proof (cases "s < length t \<and> s + cs < length t")
    case True
    have "windows cs ov t (s + cs - ov) fuel =
       map (\<lambda>k. take cs (drop (s + cs - ov + k * (cs - ov)) t)) [0..<length (windows cs ov t (s + cs - ov) fuel)]"
      using Suc.IH[OF Suc.prems] .
    moreover have "s + cs - ov + k * (cs - ov) = s + Suc k * (cs - ov)" for k
      using Suc.prems by simp
    ultimately have "windows cs ov t (s + cs - ov) fuel =
       map (\<lambda>k. take cs (drop (s + Suc k * (cs - ov)) t)) [0..<length (windows cs ov t (s + cs - ov) fuel)]"
      by simp
    then have "windows cs ov t (s + cs - ov) fuel =
       map (\<lambda>k. take cs (drop (s + k * (cs - ov)) t)) (map Suc [0..<length (windows cs ov t (s + cs - ov) fuel)])"
      by (simp add: comp_def)
    then show ?thesis using True
      by (simp add: upt_conv_Cons map_Suc_upt del: upt_Suc mult_Suc)
  next
    case False
    then show ?thesis by auto
  qed
qed

lemma windows_length: "length (windows cs ov t s fuel) \<le> fuel"
  by (induction fuel arbitrary: s) auto

lemma windows_reconstruct:
  assumes "ov < cs" "s < length t" "length t \<le> s + cs + (fuel - 1) * (cs - ov)" "fuel > 0"
  shows "reconstruct ov (windows cs ov t s fuel) = drop s t"
  using assms(2-)
proof (induction fuel arbitrary: s)
  case 0
  then show ?case by simp
next
  case (Suc fuel)
  show ?case
  proof (cases "s + cs < length t")
    case False
    then show ?thesis using Suc.prems by simp
  next
    case True
    let ?s' = "s + cs - ov"
    have s': "?s' < length t" using True assms(1) by simp
    have fuel: "fuel > 0" using True Suc.prems by (cases fuel) auto
    have "(Suc fuel - 1) * (cs - ov) = (cs - ov) + (fuel - 1) * (cs - ov)"
      using fuel by (cases fuel) simp_all
    moreover have "?s' = s + (cs - ov)" using assms(1) by simp
    ultimately have "length t \<le> ?s' + cs + (fuel - 1) * (cs - ov)"
      using Suc.prems(2) by simp
    from Suc.IH[OF s' this fuel]
    have IH: "reconstruct ov (windows cs ov t ?s' fuel) = drop ?s' t" .
    obtain w ws where w: "windows cs ov t ?s' fuel = w # ws" "w = take cs (drop ?s' t)"
      using s' fuel by (cases fuel) auto
    have lw: "ov \<le> length w" using w(2) True assms(1) by simp
    have "drop ov w @ concat (map (drop ov) ws) = drop ov (w @ concat (map (drop ov) ws))"
      using lw by simp
    also have "\<dots> = drop ov (drop ?s' t)" using IH w(1) by simp
    also have "\<dots> = drop (s + cs) t" using assms(1) by simp
    finally have "concat (map (drop ov) (windows cs ov t ?s' fuel)) = drop (s + cs) t"
      using w(1) by simp
    moreover have "take cs (drop s t) @ drop (s + cs) t = drop s t"
      by (metis add.commute append_take_drop_id drop_drop)
    ultimately show ?thesis using True Suc.prems(1) by simp
  qed
qed

lemma numWindows_step:
  assumes "ov < cs" "cs < r"
  shows "numWindows cs ov r = Suc (numWindows cs ov (r - (cs - ov)))"
proof -
  define d where "d = cs - ov"
  have d: "0 < d" "d \<le> cs" using assms(1) by (simp_all add: d_def)
  have rd: "r - d \<noteq> 0" using d assms(2) by simp
  show ?thesis
  proof (cases "r - d \<le> cs")
    case True
    obtain j where j: "r - cs + d - 1 = d + j" "j < d"
      using True d assms(2) by (intro that[of "r - cs - 1"]) simp_all
    have "(d + j) div d = 1 + j div d" using d(1) by (simp add: div_add_self1)
    then have "(r - cs + d - 1) div d = 1"
      unfolding j(1) using j(2) by simp
    then show ?thesis
      using True rd assms(2) by (simp add: numWindows_def d_def[symmetric])
  next
    case False
    have eq: "r - cs + d - 1 = (r - cs - 1) + d" "r - d - cs + d - 1 = r - cs - 1"
      using False d by simp_all
    have "(r - cs - 1 + d) div d = Suc ((r - cs - 1) div d)"
      using d(1) by (simp add: div_add_self2)
    then have "(r - cs + d - 1) div d = Suc ((r - d - cs + d - 1) div d)"
      unfolding eq .
    then show ?thesis
      using False rd assms(2) by (simp add: numWindows_def d_def[symmetric])
  qed
qed

lemma windows_count:
  "ov < cs \<Longrightarrow> length (windows cs ov t s fuel) = min fuel (numWindows cs ov (length t - s))"
proof (induction fuel arbitrary: s)
  case 0
  then show ?case by simp
next
  case (Suc fuel)
  show ?case
  proof (cases "s < length t")
    case False
    then show ?thesis by (simp add: numWindows_def)
  next
    case True
    show ?thesis
    proof (cases "s + cs < length t")
      case False
      then show ?thesis using True by (simp add: numWindows_def)
    next
      case lt: True
      have "length t - (s + cs - ov) = length t - s - (cs - ov)" using Suc.prems by simp
      moreover have "numWindows cs ov (length t - s) = Suc (numWindows cs ov (length t - s - (cs - ov)))"
        using lt Suc.prems by (intro numWindows_step) simp_all
      ultimately show ?thesis using True lt Suc.IH[OF Suc.prems, of "s + cs - ov"] by simp
    qed
  qed
qed

lemma windows_unfold:
  "0 < fuel \<Longrightarrow> windows cs ov t s fuel =
     (if s < length t
      then take cs (drop s t) #
           (if s + cs < length t then windows cs ov t (s + cs - ov) (fuel - 1) else [])
      else [])"
  by (cases fuel) simp_all

lemma windows_2500:
  assumes "length t = 2500"
  shows "windows 1000 100 t 0 maxIterations = [take 1000 t, take 1000 (drop 900 t), drop 1800 t]"
proof -
  have "windows 1000 100 t 1800 (maxIterations - 1 - 1) = [drop 1800 t]"
    using assms by (subst windows_unfold) (simp_all add: maxIterations_def)
  then have "windows 1000 100 t 900 (maxIterations - 1) = [take 1000 (drop 900 t), drop 1800 t]"
    using assms by (subst windows_unfold) (simp_all add: maxIterations_def)
  then show ?thesis
    using assms by (subst windows_unfold) (simp_all add: maxIterations_def)
qed

lemma concat_drop_length:
  "\<forall>w \<in> set ws. length w \<le> cs \<Longrightarrow> length (concat (map (drop ov) ws)) \<le> length ws * (cs - ov)"
  by (induction ws) (auto simp: add_mono)

lemma windows_chunk_length: "w \<in> set (windows cs ov t s fuel) \<Longrightarrow> length w \<le> cs"
  by (induction fuel arbitrary: s) (auto split: if_splits)

lemma reconstruct_windows_length:
  "length (reconstruct ov (windows cs ov t s fuel)) \<le> cs + (fuel - 1) * (cs - ov)"
proof (cases "windows cs ov t s fuel")
  case Nil
  then show ?thesis by simp
next
  case (Cons w ws)
  have lw: "length w \<le> cs" and lws: "\<forall>w \<in> set ws. length w \<le> cs"
    using windows_chunk_length[of _ cs ov t s fuel] Cons by auto
  have "length ws \<le> fuel - 1"
    using windows_length[of cs ov t s fuel] Cons by simp
  then have "length ws * (cs - ov) \<le> (fuel - 1) * (cs - ov)" by simp
  then have "length w + length (concat (map (drop ov) ws)) \<le> cs + (fuel - 1) * (cs - ov)"
    using lw concat_drop_length[OF lws, of ov] by linarith
  then show ?thesis
    using Cons by simp
qed


lemma splitText_closed:
  assumes "0 \<le> chunkOverlap" "chunkOverlap < chunkSize"
  shows "splitText chunkSize chunkOverlap text =
           map (\<lambda>k. take (nat chunkSize) (drop (k * nat (chunkSize - chunkOverlap)) text))
               [0..<length (splitText chunkSize chunkOverlap text)]"
proof -
  define cs ov where "cs = nat chunkSize" and "ov = nat chunkOverlap"
  have c: "chunkSize = int cs" "chunkOverlap = int ov" "ov < cs"
    using assms by (simp_all add: cs_def ov_def)
  have "nat (int cs - int ov) = cs - ov" by simp
  then show ?thesis
    unfolding c(1,2) splitText_windows[OF c(3)]
    using windows_closed[OF c(3), of "text" 0 maxIterations] by simp
qed

lemma splitText_count:
  assumes "0 \<le> chunkOverlap" "chunkOverlap < chunkSize"
  shows "length (splitText chunkSize chunkOverlap text) =
           min maxIterations (numWindows (nat chunkSize) (nat chunkOverlap) (length text))"
proof -
  define cs ov where "cs = nat chunkSize" and "ov = nat chunkOverlap"
  have c: "chunkSize = int cs" "chunkOverlap = int ov" "ov < cs"
    using assms by (simp_all add: cs_def ov_def)
  show ?thesis
    unfolding c(1,2) splitText_windows[OF c(3)]
    using windows_count[OF c(3), of "text" 0 maxIterations] by simp
qed

lemma splitText_reconstruct:
  assumes "0 \<le> chunkOverlap" "chunkOverlap < chunkSize"
    and "int (length text) \<le> chunkSize + (int maxIterations - 1) * (chunkSize - chunkOverlap)"
  shows "reconstruct (nat chunkOverlap) (splitText chunkSize chunkOverlap text) = text"
proof (cases "text = []")
  case True
  then show ?thesis by (simp add: splitText_def splitLoop_stop)
next
  case False
  define cs ov where "cs = nat chunkSize" and "ov = nat chunkOverlap"
  have c: "chunkSize = int cs" "chunkOverlap = int ov" "ov < cs"
    using assms by (simp_all add: cs_def ov_def)
  have "int (length text) \<le> int (cs + (maxIterations - 1) * (cs - ov))"
    using assms(3) c by (simp add: maxIterations_def of_nat_diff)
  then have "length text \<le> 0 + cs + (maxIterations - 1) * (cs - ov)" by linarith
  then have "reconstruct ov (windows cs ov text 0 maxIterations) = drop 0 text"
    using False by (intro windows_reconstruct[OF c(3)]) (simp_all add: maxIterations_def)
  then show ?thesis
    unfolding c(1,2) splitText_windows[OF c(3)] by simp
qed

lemma splitText_reconstruct_length:
  assumes "0 \<le> chunkOverlap" "chunkOverlap < chunkSize"
  shows "int (length (reconstruct (nat chunkOverlap) (splitText chunkSize chunkOverlap text)))
           \<le> chunkSize + (int maxIterations - 1) * (chunkSize - chunkOverlap)"
proof -
  define cs ov where "cs = nat chunkSize" and "ov = nat chunkOverlap"
  have c: "chunkSize = int cs" "chunkOverlap = int ov" "ov < cs"
    using assms by (simp_all add: cs_def ov_def)
  have "int (length (reconstruct ov (windows cs ov text 0 maxIterations)))
          \<le> int (cs + (maxIterations - 1) * (cs - ov))"
    using reconstruct_windows_length[of ov cs "text" 0 maxIterations] by linarith
  then show ?thesis
    unfolding c(1,2) splitText_windows[OF c(3)]
    using c(3) by (simp add: maxIterations_def of_nat_diff)
qed

lemma splitText_2500:
  "length text = 2500 \<Longrightarrow>
     splitText 1000 100 text = [take 1000 text, take 1000 (drop 900 text), drop 1800 text]"
  using splitText_windows[of 100 1000 "text"] windows_2500[of "text"] by simp

theorem splitText_cap_counterexample:
  "reconstruct 100 (splitText 1000 100 (replicate 900101 (120::nat))) \<noteq> replicate 900101 120"
proof
  assume "reconstruct 100 (splitText 1000 100 (replicate 900101 (120::nat))) = replicate 900101 120"
  then have "length (reconstruct (nat 100) (splitText 1000 100 (replicate 900101 (120::nat)))) = 900101"
    by simp
  moreover have "int (length (reconstruct (nat 100) (splitText 1000 100 (replicate 900101 (120::nat)))))
      \<le> 1000 + (int maxIterations - 1) * (1000 - 100)"
    by (rule splitText_reconstruct_length) simp_all
  ultimately show False by (simp add: maxIterations_def)
qed

text \<open>
  C5 (as amended). For \<open>0 \<le> chunkOverlap < chunkSize\<close>, \<open>splitText\<close> returns the windows at
  offsets \<open>0, chunkSize - chunkOverlap, 2 * (chunkSize - chunkOverlap), \<dots>\<close>, each of length
  \<open>min chunkSize (remaining text)\<close>; there are as many as are needed to reach the end of
  the text, but never more than the cap of 1000 iterations, which the loop never exceeds.
  When the text fits under the cap, concatenating the chunks minus their overlaps gives
  the text back. A text of 2500 characters is split, with the default parameters, into
  the spans [0,1000), [900,1900) and [1800,2500).
\<close>

theorem splitText_windows_within_cap:
  assumes "0 \<le> chunkOverlap" "chunkOverlap < chunkSize"
  shows "splitText chunkSize chunkOverlap text =
           map (\<lambda>k. take (nat chunkSize) (drop (k * nat (chunkSize - chunkOverlap)) text))
               [0..<length (splitText chunkSize chunkOverlap text)]
       \<and> (\<forall>k < length (splitText chunkSize chunkOverlap text).
            length (splitText chunkSize chunkOverlap text ! k) =
              min (nat chunkSize) (length text - k * nat (chunkSize - chunkOverlap)))
       \<and> length (splitText chunkSize chunkOverlap text) =
           min maxIterations (numWindows (nat chunkSize) (nat chunkOverlap) (length text))
       \<and> splitText_iterations chunkSize chunkOverlap text \<le> maxIterations
       \<and> (int (length text) \<le> chunkSize + (int maxIterations - 1) * (chunkSize - chunkOverlap) \<longrightarrow>
            reconstruct (nat chunkOverlap) (splitText chunkSize chunkOverlap text) = text)
       \<and> (length text = 2500 \<longrightarrow>
            splitText 1000 100 text = [take 1000 text, take 1000 (drop 900 text), drop 1800 text])"
proof -
  let ?chunks = "splitText chunkSize chunkOverlap text"
  let ?f = "\<lambda>k. take (nat chunkSize) (drop (k * nat (chunkSize - chunkOverlap)) text)"
  have closed: "?chunks = map ?f [0..<length ?chunks]"
    using assms by (rule splitText_closed)
  have len: "length (?chunks ! k) = min (nat chunkSize) (length text - k * nat (chunkSize - chunkOverlap))"
    if "k < length ?chunks" for k
  proof -
    have "?chunks ! k = map ?f [0..<length ?chunks] ! k" using closed by simp
    also have "\<dots> = ?f k" using that by simp
    finally show ?thesis by simp
  qed
  have it: "splitText_iterations chunkSize chunkOverlap text \<le> maxIterations"
    unfolding splitText_iterations_def by (rule splitLoop_iterations) simp
  show ?thesis
    using closed len it splitText_count[OF assms] splitText_reconstruct[OF assms] splitText_2500
    by blast
qed

theorem splitText_windows_within_cap_witness:
  "(0::int) \<le> 1 \<and> (1::int) < 4
   \<and> int (length ''abcdefghijk'') \<le> 4 + (int maxIterations - 1) * (4 - 1)
   \<and> length (splitText 4 1 ''abcdefghijk'') = 4
   \<and> reconstruct (nat 1) (splitText 4 1 ''abcdefghijk'') = ''abcdefghijk''
   \<and> length (replicate 2500 CHR ''x'') = 2500
   \<and> splitText 1000 100 (replicate 2500 CHR ''x'') =
        [replicate 1000 CHR ''x'', replicate 1000 CHR ''x'', replicate 700 CHR ''x'']"
  using splitText_windows_within_cap [of 1 4 "''abcdefghijk''"]
        splitText_windows_within_cap [of 100 1000 "replicate 2500 CHR ''x''"]
  by (simp add: maxIterations_def numWindows_def upt_conv_Cons)

section \<open>Trimming and de-duplication\<close>

lemma trim_prefix: "\<exists>w. dropWhile is_space s = trim s @ w"
proof -
  have "dropWhile is_space s = trim s @ rev (takeWhile is_space (rev (dropWhile is_space s)))"
    unfolding trim_def by (metis rev_append rev_rev_ident takeWhile_dropWhile_id)
  then show ?thesis ..
qed

lemma trim_hd: "trim s \<noteq> [] \<Longrightarrow> \<not> is_space (hd (trim s))"
proof -
  assume ne: "trim s \<noteq> []"
  obtain w where w: "dropWhile is_space s = trim s @ w" using trim_prefix by blast
  then have "hd (dropWhile is_space s) = hd (trim s)" using ne by simp
  moreover have "dropWhile is_space s \<noteq> []" using w ne by simp
  ultimately show ?thesis using hd_dropWhile[of is_space s] by simp
qed

lemma trim_last: "trim s \<noteq> [] \<Longrightarrow> \<not> is_space (last (trim s))"
proof -
  assume ne: "trim s \<noteq> []"
  let ?r = "dropWhile is_space (rev (dropWhile is_space s))"
  have "?r \<noteq> []" using ne by (simp add: trim_def)
  then have "\<not> is_space (hd ?r)" by (rule hd_dropWhile)
  moreover have "last (trim s) = hd ?r" using \<open>?r \<noteq> []\<close> by (simp add: trim_def last_rev)
  ultimately show ?thesis by simp
qed

lemma trim_fixed:
  assumes "s = [] \<or> (\<not> is_space (hd s) \<and> \<not> is_space (last s))"
  shows "trim s = s"
proof (cases "s = []")
  case True
  then show ?thesis by (simp add: trim_def)
next
  case False
  then have h: "\<not> is_space (hd s)" "\<not> is_space (last s)" using assms by auto
  have "dropWhile is_space s = s" using False h(1) by (cases s) simp_all
  moreover have "dropWhile is_space (rev s) = rev s"
    using False h(2) by (cases "rev s") (simp_all add: last_rev[symmetric] hd_rev)
  ultimately show ?thesis by (simp add: trim_def)
qed

lemma trim_idem: "trim (trim s) = trim s"
  using trim_hd[of s] trim_last[of s] by (intro trim_fixed) blast


lemma firstPerSignature_subset: "set (firstPerSignature sig ys) \<subseteq> set ys"
  by (induction sig ys rule: firstPerSignature.induct) auto

lemma firstPerSignature_distinct: "distinct (map sig (firstPerSignature sig ys))"
proof (induction sig ys rule: firstPerSignature.induct)
  case (1 sig)
  then show ?case by simp
next
  case (2 sig y ys)
  let ?rest = "firstPerSignature sig (filter (\<lambda>z. sig z \<noteq> sig y) ys)"
  have "set ?rest \<subseteq> set (filter (\<lambda>z. sig z \<noteq> sig y) ys)"
    by (rule firstPerSignature_subset)
  then have "\<forall>z \<in> set ?rest. sig z \<noteq> sig y" by auto
  then have "sig y \<notin> set (map sig ?rest)" by (metis (no_types, lifting) image_iff set_map)
  moreover have "distinct (map sig ?rest)" by (rule "2.IH")
  ultimately show ?case by (simp only: firstPerSignature.simps list.map distinct.simps) simp
qed

lemma firstPerSignature_fixed: "distinct (map sig ys) \<Longrightarrow> firstPerSignature sig ys = ys"
proof (induction ys)
  case Nil
  then show ?case by simp
next
  case (Cons y ys)
  then have "sig y \<notin> sig ` set ys" by simp
  then have "\<forall>z \<in> set ys. sig z \<noteq> sig y" by (metis imageI)
  then have "filter (\<lambda>z. sig z \<noteq> sig y) ys = ys" by (simp add: filter_id_conv)
  then show ?case using Cons by simp
qed

lemma firstPerSignature_subseq: "subseq (firstPerSignature sig ys) ys"
proof (induction sig ys rule: firstPerSignature.induct)
  case (1 sig)
  then show ?case by simp
next
  case (2 sig y ys)
  have "subseq (filter (\<lambda>z. sig z \<noteq> sig y) ys) ys" by simp
  with 2 have "subseq (firstPerSignature sig (filter (\<lambda>z. sig z \<noteq> sig y) ys)) ys"
    using subseq_order.order_trans by blast
  then show ?case by simp
qed

lemma filter_unseen_insert:
  "filter (\<lambda>z. sig z \<noteq> s) (filter (\<lambda>c. sig c \<notin> seen) zs) = filter (\<lambda>c. sig c \<notin> insert s seen) zs"
  by (induction zs) auto

lemma dedupeLoop_firstPerSignature:
  "dedupeLoop lower rawChunks uniqueChunks seen =
     uniqueChunks @ firstPerSignature (signature lower)
       (filter (\<lambda>c. signature lower c \<notin> seen) (filter (\<lambda>c. 50 \<le> length c) (map trim rawChunks)))"
proof (induction rawChunks arbitrary: uniqueChunks seen)
  case Nil
  then show ?case by simp
next
  case (Cons chunk rawChunks)
  let ?long = "filter (\<lambda>c. 50 \<le> length c) (map trim rawChunks)"
  consider (short) "length (trim chunk) < 50"
    | (new) "50 \<le> length (trim chunk)" "signature lower (trim chunk) \<notin> seen"
    | (dup) "50 \<le> length (trim chunk)" "signature lower (trim chunk) \<in> seen"
    by linarith
  then show ?case
  proof cases
    case short
    then show ?thesis by (simp add: Cons.IH)
  next
    case new
    have "dedupeLoop lower (chunk # rawChunks) uniqueChunks seen =
        (uniqueChunks @ [trim chunk]) @ firstPerSignature (signature lower)
           (filter (\<lambda>c. signature lower c \<notin> insert (signature lower (trim chunk)) seen) ?long)"
      using new by (simp add: Cons.IH Let_def)
    also have "\<dots> = uniqueChunks @ firstPerSignature (signature lower)
           (trim chunk # filter (\<lambda>c. signature lower c \<notin> seen) ?long)"
      by (simp only: firstPerSignature.simps filter_unseen_insert append_assoc append.simps)
    finally show ?thesis using new by simp
  next
    case dup
    then show ?thesis by (simp add: Cons.IH Let_def)
  qed
qed

lemma dedupe_firstPerSignature:
  "dedupe lower rawChunks =
     firstPerSignature (signature lower) (filter (\<lambda>c. 50 \<le> length c) (map trim rawChunks))"
  by (simp add: dedupe_def dedupeLoop_firstPerSignature)

lemma dedupe_member_source:
  assumes "c \<in> set (dedupe lower rawChunks)"
  shows "c \<in> set (filter (\<lambda>c. 50 \<le> length c) (map trim rawChunks))"
proof -
  have "set (dedupe lower rawChunks) \<subseteq> set (filter (\<lambda>c. 50 \<le> length c) (map trim rawChunks))"
    unfolding dedupe_firstPerSignature by (rule firstPerSignature_subset)
  then show ?thesis using assms by (rule subsetD)
qed

lemma dedupe_member_long: "c \<in> set (dedupe lower rawChunks) \<Longrightarrow> 50 \<le> length c"
  using dedupe_member_source[of c lower rawChunks] by simp

lemma dedupe_member_trimmed: "c \<in> set (dedupe lower rawChunks) \<Longrightarrow> trim c = c"
proof -
  assume "c \<in> set (dedupe lower rawChunks)"
  then have "c \<in> set (map trim rawChunks)"
    using dedupe_member_source[of c lower rawChunks] by simp
  then obtain r where "c = trim r" by (auto simp: image_iff)
  then show ?thesis by (simp add: trim_idem)
qed

lemma dedupe_idem: "dedupe lower (dedupe lower rawChunks) = dedupe lower rawChunks"
proof -
  let ?out = "dedupe lower rawChunks"
  have "map trim ?out = ?out"
    by (rule map_idI) (rule dedupe_member_trimmed)
  moreover have "filter (\<lambda>c. 50 \<le> length c) ?out = ?out"
    by (rule filter_True) (simp add: dedupe_member_long)
  moreover have "distinct (map (signature lower) ?out)"
    unfolding dedupe_firstPerSignature by (rule firstPerSignature_distinct)
  ultimately show ?thesis
    using dedupe_firstPerSignature[of lower ?out] firstPerSignature_fixed by metis
qed

text \<open>
  C7. De-duplication is idempotent, and its output keeps, in the input order, the first
  chunk of every signature among the trimmed chunks of at least 50 characters: it is a
  subsequence of the trimmed input with pairwise distinct signatures.
\<close>

theorem dedupe_idempotent_first_occurrence:
  "dedupe toLowerCase (dedupe toLowerCase rawChunks) = dedupe toLowerCase rawChunks
   \<and> dedupe toLowerCase rawChunks =
       firstPerSignature (signature toLowerCase)
         (filter (\<lambda>c. 50 \<le> length c) (map trim rawChunks))
   \<and> subseq (dedupe toLowerCase rawChunks) (map trim rawChunks)
   \<and> distinct (map (signature toLowerCase) (dedupe toLowerCase rawChunks))"
proof -
  let ?long = "filter (\<lambda>c. 50 \<le> length c) (map trim rawChunks)"
  have "subseq (firstPerSignature (signature toLowerCase) ?long) ?long"
    by (rule firstPerSignature_subseq)
  moreover have "subseq ?long (map trim rawChunks)" by simp
  ultimately have "subseq (dedupe toLowerCase rawChunks) (map trim rawChunks)"
    unfolding dedupe_firstPerSignature using subseq_order.order_trans by blast
  moreover have "distinct (map (signature toLowerCase) (dedupe toLowerCase rawChunks))"
    unfolding dedupe_firstPerSignature by (rule firstPerSignature_distinct)
  ultimately show ?thesis
    using dedupe_idem dedupe_firstPerSignature by blast
qed

text \<open>
  C8. Every chunk in the output of the de-duplication, and so every chunk returned by
  \<open>chunkText\<close>, is trimmed and has at least 50 characters; an input chunk whose trimmed
  length is under 50 never appears in the output.
\<close>

theorem chunkText_trimmed_min_length:
  "(\<forall>c \<in> set (dedupe toLowerCase rawChunks). trim c = c \<and> 50 \<le> length c)
   \<and> (\<forall>r \<in> set rawChunks. length (trim r) < 50 \<longrightarrow> trim r \<notin> set (dedupe toLowerCase rawChunks))
   \<and> (\<forall>c \<in> set (chunkText toLowerCase text). trim c = c \<and> 50 \<le> length c)"
proof -
  have a: "\<forall>c \<in> set (dedupe toLowerCase chunks). trim c = c \<and> 50 \<le> length c" for chunks
    using dedupe_member_trimmed dedupe_member_long by blast
  have "trim r \<notin> set (dedupe toLowerCase rawChunks)" if "length (trim r) < 50" for r
    using that dedupe_member_long[of "trim r" toLowerCase rawChunks] by auto
  then show ?thesis
    using a unfolding chunkText_def by blast
qed

lemma collapse_whitespace_id: "\<forall>c \<in> set s. \<not> is_space c \<Longrightarrow> collapse_whitespace s = s"
  by (induction s) simp_all

lemma limit_newlines_id: "10 \<notin> set s \<Longrightarrow> limit_newlines s = s"
  by (induction s) simp_all

lemma splitText_short:
  assumes "t \<noteq> []" "length t \<le> 1000"
  shows "splitText 1000 100 t = [t]"
proof -
  have "windows 1000 100 t 0 maxIterations = [t]"
    using assms by (subst windows_unfold) (simp_all add: maxIterations_def)
  then show ?thesis using splitText_windows[of 100 1000 t] by simp
qed

lemma not_space_97: "\<not> is_space 97"
  by (simp add: is_space_def)

lemma trim_replicate_97: "0 < n \<Longrightarrow> trim (replicate n 97) = replicate n 97"
  by (rule trim_fixed) (simp add: not_space_97 hd_replicate last_replicate)

lemma dedupe_single: "trim c = c \<Longrightarrow> 50 \<le> length c \<Longrightarrow> dedupe lower [c] = [c]"
  by (simp add: dedupe_def)

lemma chunkText_replicate_97: "chunkText lower (replicate 60 97) = [replicate 60 97]"
proof -
  have "cleanText (replicate 60 97) = replicate 60 97"
    by (simp add: cleanText_def collapse_whitespace_id limit_newlines_id not_space_97 trim_replicate_97)
  moreover have "splitText 1000 100 (replicate 60 (97::nat)) = [replicate 60 97]"
    by (rule splitText_short) simp_all
  ultimately show ?thesis
    by (simp add: chunkText_def dedupe_single trim_replicate_97)
qed

lemma trim_space_short: "trim [32, 98, 32] = [98]"
  by (simp add: trim_def is_space_def)

lemma dedupe_long_short: "dedupe lower [replicate 60 97, [32, 98, 32]] = [replicate 60 97]"
  by (simp add: dedupe_def trim_replicate_97 trim_space_short)

theorem chunkText_trimmed_min_length_witness:
  "replicate 60 97 \<in> set (dedupe asciiLower [replicate 60 97, [32, 98, 32]])
   \<and> trim (replicate 60 97) = replicate 60 97 \<and> 50 \<le> length (replicate 60 (97::nat))
   \<and> [32, 98, 32] \<in> set [replicate 60 97, [32, 98, 32]]
   \<and> length (trim [32, 98, 32]) < 50
   \<and> trim [32, 98, 32] \<notin> set (dedupe asciiLower [replicate 60 97, [32, 98, 32]])
   \<and> replicate 60 97 \<in> set (chunkText asciiLower (replicate 60 97))"
  using chunkText_trimmed_min_length [of asciiLower "[replicate 60 97, [32, 98, 32]]" "replicate 60 97"]
  by (simp add: dedupe_long_short chunkText_replicate_97 trim_space_short)

end
